theory Spec2Isabelle
  imports Main "HOL-Library.Word"
begin

section \<open>Bytes, text and the UTF-8 codec\<close>

text \<open>
  \<^verbatim>\<open>logger.py\<close> works on Python \<^verbatim>\<open>bytes\<close> (sequences of 8-bit values) and
  \<^verbatim>\<open>str\<close> (sequences of Unicode code points). \<^verbatim>\<open>bytes.decode()\<close> and
  \<^verbatim>\<open>str.encode('utf-8')\<close> are the strict UTF-8 codec of the interpreter: decoding
  accepts exactly the well-formed byte sequences (shortest form, no surrogates, at most
  U+10FFFF) and raises \<^verbatim>\<open>UnicodeDecodeError\<close> on every other input; encoding raises
  \<^verbatim>\<open>UnicodeEncodeError\<close> on a surrogate code point.
\<close>

type_synonym byte = "8 word"
type_synonym pystr = "nat list"

definition in_range :: "byte \<Rightarrow> byte \<Rightarrow> byte \<Rightarrow> bool" where
  "in_range lo hi b = (lo \<le> b \<and> b \<le> hi)"

definition cont_bits :: "byte \<Rightarrow> nat" where
  "cont_bits b = unat b - 128"

fun utf8_decode :: "byte list \<Rightarrow> pystr option" where
  "utf8_decode [] = Some []"
| "utf8_decode (b # bs) =
     (if b \<le> 0x7F then map_option ((#) (unat b)) (utf8_decode bs)
      else if in_range 0xC2 0xDF b then
        (case bs of
           c1 # r \<Rightarrow>
             if in_range 0x80 0xBF c1
             then map_option ((#) ((unat b - 192) * 64 + cont_bits c1)) (utf8_decode r)
             else None
         | _ \<Rightarrow> None)
      else if in_range 0xE0 0xEF b then
        (case bs of
           c1 # c2 # r \<Rightarrow>
             if in_range (if b = 0xE0 then 0xA0 else 0x80) (if b = 0xED then 0x9F else 0xBF) c1
                \<and> in_range 0x80 0xBF c2
             then map_option
                    ((#) ((unat b - 224) * 4096 + cont_bits c1 * 64 + cont_bits c2))
                    (utf8_decode r)
             else None
         | _ \<Rightarrow> None)
      else if in_range 0xF0 0xF4 b then
        (case bs of
           c1 # c2 # c3 # r \<Rightarrow>
             if in_range (if b = 0xF0 then 0x90 else 0x80) (if b = 0xF4 then 0x8F else 0xBF) c1
                \<and> in_range 0x80 0xBF c2 \<and> in_range 0x80 0xBF c3
             then map_option
                    ((#) ((unat b - 240) * 262144 + cont_bits c1 * 4096
                          + cont_bits c2 * 64 + cont_bits c3))
                    (utf8_decode r)
             else None
         | _ \<Rightarrow> None)
      else None)"

definition utf8_encode_char :: "nat \<Rightarrow> byte list option" where
  "utf8_encode_char c =
     (if c < 0x80 then Some [of_nat c]
      else if c < 0x800 then Some [of_nat (192 + c div 64), of_nat (128 + c mod 64)]
      else if 0xD800 \<le> c \<and> c \<le> 0xDFFF then None
      else if c < 0x10000 then
        Some [of_nat (224 + c div 4096), of_nat (128 + c div 64 mod 64), of_nat (128 + c mod 64)]
      else if c \<le> 0x10FFFF then
        Some [of_nat (240 + c div 262144), of_nat (128 + c div 4096 mod 64),
              of_nat (128 + c div 64 mod 64), of_nat (128 + c mod 64)]
      else None)"

fun utf8_encode :: "pystr \<Rightarrow> byte list option" where
  "utf8_encode [] = Some []"
| "utf8_encode (c # cs) =
     (case utf8_encode_char c of
        None \<Rightarrow> None
      | Some bs \<Rightarrow> map_option ((@) bs) (utf8_encode cs))"

section \<open>Severity levels\<close>

abbreviation CRITICAL :: int where "CRITICAL \<equiv> 50"
abbreviation ERROR :: int where "ERROR \<equiv> 40"
abbreviation WARNING :: int where "WARNING \<equiv> 30"
abbreviation INFO :: int where "INFO \<equiv> 20"
abbreviation DEBUG :: int where "DEBUG \<equiv> 10"
abbreviation NOTSET :: int where "NOTSET \<equiv> 0"

section \<open>StreamLogger: the stream tailer\<close>

text \<open>
  A stream is given by what its successive \<^verbatim>\<open>read(1)\<close> calls answer: \<^verbatim>\<open>None\<close>,
  a \<^verbatim>\<open>bytes\<close> object, a \<^verbatim>\<open>str\<close> object, or an exception. A stream whose script
  is used up answers the empty \<^verbatim>\<open>bytes\<close> object (end of file) from then on.
\<close>

datatype read_result = RNone | RBytes "byte list" | RStr pystr | RRaise

datatype exn = StreamError | UnicodeEncodeError | UnicodeDecodeError

datatype tailer_class = StreamLogger | ProcessLogger | PtyLogger

text \<open>
  The fields of a \<^verbatim>\<open>StreamLogger\<close>. \<open>sink\<close> collects, in order, the records that
  \<^verbatim>\<open>self.log(self.logger, message)\<close> hands to the logger (\<^verbatim>\<open>logger.info\<close>: level
  INFO). \<open>alive_polls\<close> is the owning process as the subclasses see it: the number of
  further liveness queries that still find it running.
\<close>

record tailer =
  cls :: tailer_class
  streams :: "read_result list list"
  newline_char :: "byte list"
  buffers :: "byte list list"
  done_flag :: bool
  sink :: "(int \<times> pystr) list"
  alive_polls :: nat

text \<open>\<^verbatim>\<open>StreamLogger.__init__\<close>: one empty buffer per stream, not done.\<close>

definition new_tailer :: "tailer_class \<Rightarrow> read_result list list \<Rightarrow> byte list \<Rightarrow> nat \<Rightarrow> tailer" where
  "new_tailer c ss nl alive =
     \<lparr>cls = c, streams = ss, newline_char = nl, buffers = map (\<lambda>_. []) ss,
      done_flag = False, sink = [], alive_polls = alive\<rparr>"

text \<open>
  Lines 271 to 274 of \<^verbatim>\<open>run\<close>: what one answer of \<^verbatim>\<open>stream.read(1)\<close> gives
  the loop. The read may raise; \<^verbatim>\<open>None\<close> and an empty object end the inner loop
  (\<open>Inr None\<close>); a \<^verbatim>\<open>str\<close> is encoded, which raises on a surrogate.
\<close>

fun read_chunk :: "read_result \<Rightarrow> exn + byte list option" where
  "read_chunk RRaise = Inl StreamError"
| "read_chunk RNone = Inr None"
| "read_chunk (RBytes b) = Inr (if b = [] then None else Some b)"
| "read_chunk (RStr s) =
     (if s = [] then Inr None
      else case utf8_encode s of None \<Rightarrow> Inl UnicodeEncodeError | Some b \<Rightarrow> Inr (Some b))"

text \<open>
  Lines 275 to 279: a chunk equal to \<^verbatim>\<open>self._newline_char\<close> decodes the buffer of
  stream \<open>i\<close>, logs the line and empties the buffer; any other chunk is appended to the
  buffer. \<^verbatim>\<open>decode()\<close> may raise, before anything is logged or reset.
\<close>

definition feed :: "nat \<Rightarrow> byte list \<Rightarrow> tailer \<Rightarrow> exn + tailer" where
  "feed i b t =
     (if b = newline_char t then
        (case utf8_decode (buffers t ! i) of
           None \<Rightarrow> Inl UnicodeDecodeError
         | Some line \<Rightarrow>
             Inr (t\<lparr>sink := sink t @ [(INFO, line)], buffers := (buffers t)[i := []]\<rparr>))
      else Inr (t\<lparr>buffers := (buffers t)[i := buffers t ! i @ b]\<rparr>))"

text \<open>
  Lines 271 to 281, for stream \<open>i\<close>: the loop
  \<^verbatim>\<open>while byte is not None and len(byte)\<close> over the answers \<open>rs\<close> of the stream.
  The result is the exception that left the loop (if any), the answers not yet read,
  \<^verbatim>\<open>got_byte\<close> (set after a chunk has been fed without an exception) and the tailer.
\<close>

fun drain :: "nat \<Rightarrow> read_result list \<Rightarrow> bool \<Rightarrow> tailer
                \<Rightarrow> exn option \<times> read_result list \<times> bool \<times> tailer" where
  "drain i [] got t = (None, [], got, t)"
| "drain i (r # rs) got t =
     (case read_chunk r of
        Inl e \<Rightarrow> (Some e, rs, got, t)
      | Inr None \<Rightarrow> (None, rs, got, t)
      | Inr (Some b) \<Rightarrow>
          (case feed i b t of
             Inl e \<Rightarrow> (Some e, rs, got, t)
           | Inr t' \<Rightarrow> drain i rs True t'))"

text \<open>
  The \<^verbatim>\<open>for i, stream in enumerate(self.streams)\<close> loop of one pass, over the
  indices \<open>is\<close> still to visit. An exception leaves the loop at once.
\<close>

fun for_streams :: "nat list \<Rightarrow> bool \<Rightarrow> tailer \<Rightarrow> exn option \<times> bool \<times> tailer" where
  "for_streams [] got t = (None, got, t)"
| "for_streams (i # is) got t =
     (case drain i (streams t ! i) got t of
        (Some e, rs, got', t') \<Rightarrow> (Some e, got', t'\<lparr>streams := (streams t')[i := rs]\<rparr>)
      | (None, rs, got', t') \<Rightarrow> for_streams is got' (t'\<lparr>streams := (streams t')[i := rs]\<rparr>))"

text \<open>
  One turn of the \<^verbatim>\<open>while True\<close> loop up to its \<^verbatim>\<open>break\<close> test: the
  \<^verbatim>\<open>try\<close> block and \<^verbatim>\<open>except Exception: self._done = True\<close>. The result is
  \<^verbatim>\<open>got_byte\<close> and the tailer.
\<close>

definition try_pass :: "tailer \<Rightarrow> bool \<times> tailer" where
  "try_pass t =
     (case for_streams [0..<length (streams t)] False t of
        (Some e, got, t') \<Rightarrow> (got, t'\<lparr>done_flag := True\<rparr>)
      | (None, got, t') \<Rightarrow> (got, t'))"

subsection \<open>The pass loop ends\<close>

text \<open>
  The number of stream answers not yet read. A pass that sets \<^verbatim>\<open>got_byte\<close> has read
  at least one of them, so the \<^verbatim>\<open>while True\<close> loop of \<^verbatim>\<open>run\<close> comes to its
  \<^verbatim>\<open>break\<close>.
\<close>

definition script_total :: "tailer \<Rightarrow> nat" where
  "script_total t = sum_list (map length (streams t))"

lemma feed_fields:
  "feed i b t = Inr t' \<Longrightarrow>
     streams t' = streams t \<and> cls t' = cls t \<and> alive_polls t' = alive_polls t
     \<and> newline_char t' = newline_char t \<and> done_flag t' = done_flag t
     \<and> length (buffers t') = length (buffers t)"
  by (auto simp: feed_def split: if_splits option.splits)

lemma drain_props:
  "drain i rs got t = (e, rs', got', t') \<Longrightarrow>
     streams t' = streams t \<and> length rs' \<le> length rs \<and> (got' \<and> \<not> got \<longrightarrow> length rs' < length rs)
     \<and> (got \<longrightarrow> got')"
proof (induction rs arbitrary: got t)
  case Nil
  then show ?case by simp
next
  case (Cons r rs)
  show ?case
  proof (cases "\<exists>b u. read_chunk r = Inr (Some b) \<and> feed i b t = Inr u")
    case True
    then obtain b u where bu: "read_chunk r = Inr (Some b)" "feed i b t = Inr u" by blast
    with Cons.prems have "drain i rs True u = (e, rs', got', t')" by simp
    from Cons.IH [OF this] feed_fields [OF bu(2)] show ?thesis by simp
  next
    case False
    with Cons.prems show ?thesis
      by (auto split: sum.splits option.splits)
  qed
qed

lemma total_update_le:
  "i < length ss \<Longrightarrow> length rs \<le> length (ss ! i) \<Longrightarrow>
     sum_list (map length (ss[i := rs])) \<le> sum_list (map length ss)"
  by (induction ss arbitrary: i) (auto split: nat.splits simp: less_Suc_eq_0_disj)

lemma total_update_less:
  "i < length ss \<Longrightarrow> length rs < length (ss ! i) \<Longrightarrow>
     sum_list (map length (ss[i := rs])) < sum_list (map length ss)"
  by (induction ss arbitrary: i) (auto split: nat.splits simp: less_Suc_eq_0_disj)

lemma for_streams_props:
  "for_streams is got t = (e, got', t') \<Longrightarrow> \<forall>i \<in> set is. i < length (streams t) \<Longrightarrow>
     length (streams t') = length (streams t) \<and> script_total t' \<le> script_total t
     \<and> (got' \<and> \<not> got \<longrightarrow> script_total t' < script_total t) \<and> (got \<longrightarrow> got')"
proof (induction "is" arbitrary: got t e got' t')
  case Nil
  then show ?case by simp
next
  case (Cons i "is")
  obtain e1 rs1 g1 t1 where d: "drain i (streams t ! i) got t = (e1, rs1, g1, t1)"
    by (cases "drain i (streams t ! i) got t") auto
  note dp = drain_props [OF d]
  define t2 where "t2 = t1\<lparr>streams := (streams t1)[i := rs1]\<rparr>"
  from Cons.prems have ilt: "i < length (streams t)" by simp
  have len2: "length (streams t2) = length (streams t)"
    using dp by (simp add: t2_def)
  have le2: "script_total t2 \<le> script_total t"
    using dp ilt by (simp add: t2_def script_total_def total_update_le)
  have less2: "g1 \<and> \<not> got \<Longrightarrow> script_total t2 < script_total t"
    using dp ilt by (simp add: t2_def script_total_def total_update_less)
  have gg: "got \<longrightarrow> g1" using dp by simp
  show ?case
  proof (cases e1)
    case None
    with d Cons.prems(1) have fs: "for_streams is g1 t2 = (e, got', t')"
      by (simp add: t2_def)
    have "\<forall>i \<in> set is. i < length (streams t2)"
      using Cons.prems(2) len2 by simp
    from Cons.IH [OF fs this] len2 le2 less2 gg show ?thesis
      by (cases g1) auto
  next
    case (Some x)
    with d Cons.prems(1) have "got' = g1" "t' = t2" by (simp_all add: t2_def)
    with len2 le2 less2 gg show ?thesis by auto
  qed
qed

lemma try_pass_props:
  assumes "try_pass t = (got, t')"
  shows "script_total t' \<le> script_total t" and "got \<Longrightarrow> script_total t' < script_total t"
proof -
  obtain e g t1 where fs: "for_streams [0..<length (streams t)] False t = (e, g, t1)"
    by (cases "for_streams [0..<length (streams t)] False t") auto
  have p: "script_total t1 \<le> script_total t \<and> (g \<longrightarrow> script_total t1 < script_total t)"
    using for_streams_props [OF fs] by simp
  have "got = g" and "script_total t' = script_total t1"
    using assms fs by (auto simp: try_pass_def script_total_def split: option.splits)
  with p show "script_total t' \<le> script_total t" and "got \<Longrightarrow> script_total t' < script_total t"
    by auto
qed

text \<open>
  The \<^verbatim>\<open>while True\<close> loop (lines 267 to 285): passes are repeated until one reads
  nothing or \<^verbatim>\<open>self._done\<close> is set.
\<close>

function while_true :: "tailer \<Rightarrow> tailer" where
  "while_true t =
     (if \<not> fst (try_pass t) \<or> done_flag (snd (try_pass t)) then snd (try_pass t)
      else while_true (snd (try_pass t)))"
  by pat_completeness auto
termination
proof (relation "measure script_total")
  show "wf (measure script_total)" by simp
next
  fix t
  assume "\<not> (\<not> fst (try_pass t) \<or> done_flag (snd (try_pass t)))"
  then have "fst (try_pass t)" by simp
  then show "(snd (try_pass t), t) \<in> measure script_total"
    using try_pass_props(2) [of t True "snd (try_pass t)"] by (cases "try_pass t") simp
qed

declare while_true.simps [simp del]

text \<open>
  \<^verbatim>\<open>is_done\<close>: \<^verbatim>\<open>self._done\<close> for a \<^verbatim>\<open>StreamLogger\<close>;
  \<^verbatim>\<open>self.process.poll() is not None\<close> for a \<^verbatim>\<open>ProcessLogger\<close> and
  \<^verbatim>\<open>not self.process.isalive()\<close> for a \<^verbatim>\<open>PtyLogger\<close>, neither of which reads
  \<^verbatim>\<open>self._done\<close>. \<open>polled\<close> is the owning process after one such query.
\<close>

definition is_done :: "tailer \<Rightarrow> bool" where
  "is_done t =
     (case cls t of
        StreamLogger \<Rightarrow> done_flag t
      | ProcessLogger \<Rightarrow> alive_polls t = 0
      | PtyLogger \<Rightarrow> alive_polls t = 0)"

definition polled :: "tailer \<Rightarrow> tailer" where
  "polled t =
     (case cls t of
        StreamLogger \<Rightarrow> t
      | _ \<Rightarrow> t\<lparr>alive_polls := alive_polls t - 1\<rparr>)"

text \<open>
  \<^verbatim>\<open>run\<close>: \<^verbatim>\<open>while not self.is_done()\<close> around the pass loop and
  \<^verbatim>\<open>time.sleep(0.5)\<close>. The loop has no bound of its own, so not returning is the
  value \<open>None\<close>.
\<close>

partial_function (option) run :: "tailer \<Rightarrow> tailer option" where
  "run t = (if is_done t then Some t else run (while_true (polled t)))"

text \<open>The tailer after \<open>n\<close> turns of the pass loop, whatever their grouping by sleeps.\<close>

primrec passes :: "nat \<Rightarrow> tailer \<Rightarrow> tailer" where
  "passes 0 t = t"
| "passes (Suc n) t = passes n (snd (try_pass t))"

lemma passes_add: "passes (m + n) t = passes n (passes m t)"
  by (induction m arbitrary: t) simp_all

lemma drain_cls:
  "drain i rs got t = (e, rs', got', t') \<Longrightarrow> cls t' = cls t \<and> alive_polls t' = alive_polls t"
proof (induction rs arbitrary: got t)
  case Nil
  then show ?case by simp
next
  case (Cons r rs)
  show ?case
  proof (cases "\<exists>b u. read_chunk r = Inr (Some b) \<and> feed i b t = Inr u")
    case True
    then obtain b u where bu: "read_chunk r = Inr (Some b)" "feed i b t = Inr u" by blast
    with Cons.prems have "drain i rs True u = (e, rs', got', t')" by simp
    from Cons.IH [OF this] feed_fields [OF bu(2)] show ?thesis by simp
  next
    case False
    with Cons.prems show ?thesis
      by (auto split: sum.splits option.splits)
  qed
qed

lemma for_streams_cls:
  "for_streams is got t = (e, got', t') \<Longrightarrow> cls t' = cls t \<and> alive_polls t' = alive_polls t"
proof (induction "is" arbitrary: got t e got' t')
  case Nil
  then show ?case by simp
next
  case (Cons i "is")
  obtain e1 rs1 g1 t1 where d: "drain i (streams t ! i) got t = (e1, rs1, g1, t1)"
    by (cases "drain i (streams t ! i) got t") auto
  note dc = drain_cls [OF d]
  show ?case
  proof (cases e1)
    case None
    with d Cons.prems have "for_streams is g1 (t1\<lparr>streams := (streams t1)[i := rs1]\<rparr>) = (e, got', t')"
      by simp
    from Cons.IH [OF this] dc show ?thesis by simp
  next
    case (Some x)
    with d Cons.prems dc show ?thesis by auto
  qed
qed

lemma try_pass_cls: "cls (snd (try_pass t)) = cls t \<and> alive_polls (snd (try_pass t)) = alive_polls t"
proof -
  obtain e g t1 where fs: "for_streams [0..<length (streams t)] False t = (e, g, t1)"
    by (cases "for_streams [0..<length (streams t)] False t") auto
  from for_streams_cls [OF fs] fs show ?thesis
    by (auto simp: try_pass_def split: option.splits)
qed

lemma passes_cls: "cls (passes n t) = cls t"
  by (induction n arbitrary: t) (simp_all add: try_pass_cls)

lemma while_true_passes:
  "done_flag (passes n t) \<Longrightarrow> 0 < n \<Longrightarrow>
     \<exists>m. 0 < m \<and> m \<le> n \<and> while_true t = passes m t"
proof (induction n arbitrary: t)
  case 0
  then show ?case by simp
next
  case (Suc n)
  show ?case
  proof (cases "\<not> fst (try_pass t) \<or> done_flag (snd (try_pass t))")
    case True
    then have "while_true t = passes 1 t"
      by (subst while_true.simps) simp
    then show ?thesis by (intro exI [of _ 1]) simp
  next
    case False
    then have wt: "while_true t = while_true (snd (try_pass t))"
      by (subst while_true.simps) simp
    from False Suc.prems have "0 < n"
      by (cases n) auto
    have "done_flag (passes n (snd (try_pass t)))" using Suc.prems(1) by simp
    from Suc.IH [OF this \<open>0 < n\<close>]
    obtain m where "0 < m" "m \<le> n" "while_true (snd (try_pass t)) = passes m (snd (try_pass t))"
      by blast
    with wt show ?thesis by (intro exI [of _ "Suc m"]) simp
  qed
qed

lemma run_StreamLogger_stops:
  "cls t = StreamLogger \<Longrightarrow> \<forall>k<n. \<not> done_flag (passes k t) \<Longrightarrow> done_flag (passes n t)
     \<Longrightarrow> run t = Some (passes n t)"
proof (induction n arbitrary: t rule: less_induct)
  case (less n)
  show ?case
  proof (cases "done_flag t")
    case True
    with less.prems(2) have "n = 0" by (cases n) auto
    with True less.prems(1) show ?thesis
      by (subst run.simps) (simp add: is_done_def)
  next
    case False
    with less.prems(3) have npos: "0 < n" by (cases n) auto
    from while_true_passes [OF less.prems(3) npos]
    obtain m where m: "0 < m" "m \<le> n" "while_true t = passes m t" by auto
    have r: "run t = run (passes m t)"
      using False less.prems(1) m(3) by (subst run.simps) (simp add: is_done_def polled_def)
    have "passes (m + (n - m)) t = passes (n - m) (passes m t)" by (rule passes_add)
    with m(2) have n: "passes (n - m) (passes m t) = passes n t" by simp
    have "run (passes m t) = Some (passes (n - m) (passes m t))"
    proof (rule less.IH)
      show "n - m < n" using m npos by simp
      show "cls (passes m t) = StreamLogger" using less.prems(1) by (simp add: passes_cls)
      show "\<forall>k<n - m. \<not> done_flag (passes k (passes m t))"
      proof (intro allI impI)
        fix k assume "k < n - m"
        then have "m + k < n" by simp
        with less.prems(2) have "\<not> done_flag (passes (m + k) t)" by blast
        then show "\<not> done_flag (passes k (passes m t))" by (simp add: passes_add)
      qed
      show "done_flag (passes (n - m) (passes m t))"
        using less.prems(3) n by simp
    qed
    with r n show ?thesis by simp
  qed
qed

subsection \<open>Line assembly\<close>

text \<open>
  What the specification says of a stream's bytes, stated on its own: the bytes are cut
  at every delimiter byte \<open>d\<close>; a line is the run of bytes since the previous
  delimiter (for the first line: since the bytes \<open>cur\<close> already buffered), without
  the delimiter. The result is the list of complete lines and the bytes after the last
  delimiter.
\<close>

fun segments :: "byte \<Rightarrow> byte list \<Rightarrow> byte list \<Rightarrow> byte list list \<times> byte list" where
  "segments d cur [] = ([], cur)"
| "segments d cur (b # bs) =
     (if b = d then (cur # fst (segments d [] bs), snd (segments d [] bs))
      else segments d (cur @ [b]) bs)"

lemma segments_count: "length (fst (segments d cur bs)) = count_list bs d"
  by (induction bs arbitrary: cur) simp_all

lemma segments_no_delimiter:
  "d \<notin> set cur \<Longrightarrow>
     (\<forall>l \<in> set (fst (segments d cur bs)). d \<notin> set l) \<and> d \<notin> set (snd (segments d cur bs))"
proof (induction bs arbitrary: cur)
  case Nil
  then show ?case by simp
next
  case (Cons b bs)
  from Cons.IH [of "[]"] Cons.IH [of "cur @ [b]"] Cons.prems show ?case
    by (cases "b = d") simp_all
qed

lemma segments_concat:
  "concat (map (\<lambda>l. l @ [d]) (fst (segments d cur bs))) @ snd (segments d cur bs) = cur @ bs"
  by (induction bs arbitrary: cur) simp_all

lemma segments_last:
  "bs \<noteq> [] \<Longrightarrow> last bs = d \<Longrightarrow> snd (segments d cur bs) = []"
  by (induction bs arbitrary: cur) (auto split: if_splits)

lemma drain_bytes:
  "i < length (buffers t) \<Longrightarrow> newline_char t = [d] \<Longrightarrow>
   \<forall>l \<in> set (fst (segments d (buffers t ! i) bs)). utf8_decode l \<noteq> None \<Longrightarrow>
   drain i (map (\<lambda>b. RBytes [b]) bs) got t =
     (None, [], got \<or> bs \<noteq> [],
      t\<lparr>sink := sink t @ map (\<lambda>l. (INFO, the (utf8_decode l))) (fst (segments d (buffers t ! i) bs)),
        buffers := (buffers t)[i := snd (segments d (buffers t ! i) bs)]\<rparr>)"
proof (induction bs arbitrary: t got)
  case Nil
  then show ?case by simp
next
  case (Cons b bs)
  show ?case
  proof (cases "b = d")
    case True
    with Cons.prems obtain line where line: "utf8_decode (buffers t ! i) = Some line"
      by auto
    define u where "u = t\<lparr>sink := sink t @ [(INFO, line)], buffers := (buffers t)[i := []]\<rparr>"
    have f: "feed i [b] t = Inr u"
      using True Cons.prems(2) line by (simp add: feed_def u_def)
    have u: "i < length (buffers u)" "newline_char u = [d]" "buffers u ! i = []"
      using Cons.prems by (simp_all add: u_def)
    have "\<forall>l \<in> set (fst (segments d (buffers u ! i) bs)). utf8_decode l \<noteq> None"
      using Cons.prems(3) True u(3) by simp
    from Cons.IH [OF u(1,2) this, of True] f True line u(3) show ?thesis
      by (simp add: u_def)
  next
    case False
    define u where "u = t\<lparr>buffers := (buffers t)[i := buffers t ! i @ [b]]\<rparr>"
    have f: "feed i [b] t = Inr u"
      using False Cons.prems(2) by (simp add: feed_def u_def)
    have u: "i < length (buffers u)" "newline_char u = [d]" "buffers u ! i = buffers t ! i @ [b]"
      using Cons.prems by (simp_all add: u_def)
    have "\<forall>l \<in> set (fst (segments d (buffers u ! i) bs)). utf8_decode l \<noteq> None"
      using Cons.prems(3) False u(3) by simp
    from Cons.IH [OF u(1,2) this, of True] f False u(3) show ?thesis
      by (simp add: u_def)
  qed
qed


text \<open>
  Claim C1, as amended. The loop that reads stream \<open>i\<close> byte by byte (lines 271 to
  281), run on any byte sequence \<open>bs\<close> with a one-byte delimiter \<open>d\<close>, whenever
  every delimiter-terminated run of bytes is well-formed UTF-8: it ends without an
  exception and with every byte read; it hands the sink one INFO record per delimiter
  byte, in reading order, each the decoded bytes since the previous delimiter and none
  containing the delimiter; the lines, each followed by the delimiter, and the bytes
  left in the buffer are together exactly the bytes read; and right after a delimiter
  the buffer is empty.
\<close>

theorem line_assembly:
  assumes "i < length (buffers t)" and "newline_char t = [d]"
    and "d \<notin> set (buffers t ! i)"
    and "\<forall>l \<in> set (fst (segments d (buffers t ! i) bs)). utf8_decode l \<noteq> None"
  shows "drain i (map (\<lambda>b. RBytes [b]) bs) got t =
           (None, [], got \<or> bs \<noteq> [],
            t\<lparr>sink := sink t @ map (\<lambda>l. (INFO, the (utf8_decode l)))
                                   (fst (segments d (buffers t ! i) bs)),
              buffers := (buffers t)[i := snd (segments d (buffers t ! i) bs)]\<rparr>)
         \<and> length (fst (segments d (buffers t ! i) bs)) = count_list bs d
         \<and> (\<forall>l \<in> set (fst (segments d (buffers t ! i) bs)). d \<notin> set l)
         \<and> concat (map (\<lambda>l. l @ [d]) (fst (segments d (buffers t ! i) bs)))
               @ snd (segments d (buffers t ! i) bs) = buffers t ! i @ bs
         \<and> (bs \<noteq> [] \<and> last bs = d \<longrightarrow> snd (segments d (buffers t ! i) bs) = [])"
  using drain_bytes [OF assms(1,2,4)] segments_count segments_no_delimiter [OF assms(3)]
    segments_concat segments_last
  by blast

theorem line_assembly_witness:
  "drain 0 [RBytes [0x61], RBytes [0x62], RBytes [0x0A], RBytes [0x0A], RBytes [0x63]] False
     (new_tailer StreamLogger [[]] [0x0A] 0)
   = (None, [], True,
      \<lparr>cls = StreamLogger, streams = [[]], newline_char = [0x0A], buffers = [[0x63]],
       done_flag = False, sink = [(INFO, [97, 98]), (INFO, [])], alive_polls = 0\<rparr>)
   \<and> count_list [0x61, 0x62, 0x0A, 0x0A, 0x63] (0x0A :: byte) = 2"
  using line_assembly [of 0 "new_tailer StreamLogger [[]] [0x0A] 0" "0x0A"
      "[0x61, 0x62, 0x0A, 0x0A, 0x63]" False]
  by (simp add: new_tailer_def)

text \<open>
  The claim as stated, for every byte sequence, fails where a line is not valid UTF-8:
  of the bytes FF 0A 61 0A, with two delimiters, no line reaches the sink. Decoding
  FF raises at the first delimiter and the loop is left.
\<close>

theorem line_assembly_counterexample:
  "count_list [0xFF, 0x0A, 0x61, 0x0A] (0x0A :: byte) = 2
   \<and> drain 0 [RBytes [0xFF], RBytes [0x0A], RBytes [0x61], RBytes [0x0A]] False
        (new_tailer StreamLogger [[]] [0x0A] 0)
      = (Some UnicodeDecodeError, [RBytes [0x61], RBytes [0x0A]], True,
         \<lparr>cls = StreamLogger, streams = [[]], newline_char = [0x0A], buffers = [[0xFF]],
          done_flag = False, sink = [], alive_polls = 0\<rparr>)"
  by (simp add: new_tailer_def feed_def in_range_def)

subsection \<open>Exceptions inside a pass\<close>

lemma passes_Suc_right: "passes (Suc n) t = snd (try_pass (passes n t))"
  by (induction n arbitrary: t) simp_all

lemma try_pass_raised:
  "for_streams [0..<length (streams t)] False t = (Some e, got, t') \<Longrightarrow>
     try_pass t = (got, t'\<lparr>done_flag := True\<rparr>)"
  by (simp add: try_pass_def)

lemma feed_sink:
  "feed i b t = Inr t' \<Longrightarrow> set (sink t') \<subseteq> set (sink t) \<union> {r. fst r = INFO}"
  by (auto simp: feed_def split: if_splits option.splits)

lemma drain_sink:
  "drain i rs got t = (e, rs', got', t') \<Longrightarrow> set (sink t') \<subseteq> set (sink t) \<union> {r. fst r = INFO}"
proof (induction rs arbitrary: got t)
  case Nil
  then show ?case by simp
next
  case (Cons r rs)
  show ?case
  proof (cases "\<exists>b u. read_chunk r = Inr (Some b) \<and> feed i b t = Inr u")
    case True
    then obtain b u where bu: "read_chunk r = Inr (Some b)" "feed i b t = Inr u" by blast
    with Cons.prems have "drain i rs True u = (e, rs', got', t')" by simp
    from Cons.IH [OF this] feed_sink [OF bu(2)] show ?thesis by blast
  next
    case False
    with Cons.prems show ?thesis
      by (auto split: sum.splits option.splits)
  qed
qed

lemma read_chunk_exn: "read_chunk r \<noteq> Inl UnicodeDecodeError"
  by (cases r) (auto split: if_splits option.splits)

lemma drain_decode_error:
  "drain i rs got t = (Some UnicodeDecodeError, rs', got', t') \<Longrightarrow>
     utf8_decode (buffers t' ! i) = None"
proof (induction rs arbitrary: got t)
  case Nil
  then show ?case by simp
next
  case (Cons r rs)
  show ?case
  proof (cases "\<exists>b u. read_chunk r = Inr (Some b) \<and> feed i b t = Inr u")
    case True
    then obtain b u where bu: "read_chunk r = Inr (Some b)" "feed i b t = Inr u" by blast
    with Cons.prems have "drain i rs True u = (Some UnicodeDecodeError, rs', got', t')" by simp
    from Cons.IH [OF this] show ?thesis .
  next
    case False
    with Cons.prems read_chunk_exn [of r] show ?thesis
      by (auto simp: feed_def split: sum.splits option.splits if_splits)
  qed
qed

lemma for_streams_sink:
  "for_streams is got t = (e, got', t') \<Longrightarrow> set (sink t') \<subseteq> set (sink t) \<union> {r. fst r = INFO}"
proof (induction "is" arbitrary: got t)
  case Nil
  then show ?case by simp
next
  case (Cons i "is")
  obtain e1 rs1 g1 t1 where d: "drain i (streams t ! i) got t = (e1, rs1, g1, t1)"
    by (cases "drain i (streams t ! i) got t") auto
  note ds = drain_sink [OF d]
  show ?case
  proof (cases e1)
    case None
    with d Cons.prems have "for_streams is g1 (t1\<lparr>streams := (streams t1)[i := rs1]\<rparr>) = (e, got', t')"
      by simp
    from Cons.IH [OF this] ds show ?thesis by auto
  next
    case (Some x)
    with d Cons.prems ds show ?thesis by auto
  qed
qed

lemma for_streams_decode_error:
  "for_streams is got t = (Some UnicodeDecodeError, got', t') \<Longrightarrow>
     \<exists>i \<in> set is. utf8_decode (buffers t' ! i) = None"
proof (induction "is" arbitrary: got t)
  case Nil
  then show ?case by simp
next
  case (Cons i "is")
  obtain e1 rs1 g1 t1 where d: "drain i (streams t ! i) got t = (e1, rs1, g1, t1)"
    by (cases "drain i (streams t ! i) got t") auto
  show ?case
  proof (cases e1)
    case None
    with d Cons.prems
    have "for_streams is g1 (t1\<lparr>streams := (streams t1)[i := rs1]\<rparr>)
            = (Some UnicodeDecodeError, got', t')"
      by simp
    from Cons.IH [OF this] show ?thesis by auto
  next
    case (Some x)
    with d Cons.prems have "x = UnicodeDecodeError" "t' = t1\<lparr>streams := (streams t1)[i := rs1]\<rparr>"
      by auto
    with d Some drain_decode_error [of i "streams t ! i" got t rs1 g1 t1] show ?thesis by simp
  qed
qed

lemma try_pass_sink: "set (sink (snd (try_pass t))) \<subseteq> set (sink t) \<union> {r. fst r = INFO}"
proof -
  obtain e g t1 where fs: "for_streams [0..<length (streams t)] False t = (e, g, t1)"
    by (cases "for_streams [0..<length (streams t)] False t") auto
  from for_streams_sink [OF fs] fs show ?thesis
    by (auto simp: try_pass_def split: option.splits)
qed

lemma passes_sink: "set (sink (passes n t)) \<subseteq> set (sink t) \<union> {r. fst r = INFO}"
proof (induction n arbitrary: t)
  case 0
  then show ?case by simp
next
  case (Suc n)
  from Suc.IH [of "snd (try_pass t)"] try_pass_sink [of t] show ?case by auto
qed

lemma try_pass_length: "length (streams (snd (try_pass t))) = length (streams t)"
proof -
  obtain e g t1 where fs: "for_streams [0..<length (streams t)] False t = (e, g, t1)"
    by (cases "for_streams [0..<length (streams t)] False t") auto
  from for_streams_props [OF fs] fs show ?thesis
    by (auto simp: try_pass_def split: option.splits)
qed

lemma passes_length: "length (streams (passes n t)) = length (streams t)"
  by (induction n arbitrary: t) (simp_all add: try_pass_length)

lemma first_exception_pass:
  assumes "\<forall>k\<le>n. \<not> done_flag (passes k t)"
    and "for_streams [0..<length (streams (passes n t))] False (passes n t) = (Some e, got, t')"
  shows "passes (Suc n) t = t'\<lparr>done_flag := True\<rparr>"
    and "\<forall>k<Suc n. \<not> done_flag (passes k t)"
    and "done_flag (passes (Suc n) t)"
proof -
  show p: "passes (Suc n) t = t'\<lparr>done_flag := True\<rparr>"
    using try_pass_raised [OF assms(2)] by (simp only: passes_Suc_right snd_conv)
  show "\<forall>k<Suc n. \<not> done_flag (passes k t)"
    using assms(1) by (simp add: less_Suc_eq_le)
  show "done_flag (passes (Suc n) t)"
    by (simp only: p) simp
qed

lemma while_true_cls:
  "cls (while_true t) = cls t \<and> alive_polls (while_true t) = alive_polls t"
proof (induction t rule: while_true.induct)
  case (1 t)
  show ?case
  proof (cases "\<not> fst (try_pass t) \<or> done_flag (snd (try_pass t))")
    case True
    then have "while_true t = snd (try_pass t)" by (subst while_true.simps) simp
    then show ?thesis by (simp add: try_pass_cls)
  next
    case False
    then have "while_true t = while_true (snd (try_pass t))" by (subst while_true.simps) simp
    with "1.IH" [OF False] show ?thesis by (simp add: try_pass_cls)
  qed
qed

lemma run_process_returns:
  "cls t \<noteq> StreamLogger \<Longrightarrow> alive_polls t = n \<Longrightarrow> \<exists>u. run t = Some u \<and> alive_polls u = 0"
proof (induction n arbitrary: t)
  case 0
  then have "is_done t" by (cases "cls t") (simp_all add: is_done_def)
  then have "run t = Some t" by (subst run.simps) simp
  with 0 show ?case by simp
next
  case (Suc n)
  then have nd: "\<not> is_done t" by (cases "cls t") (simp_all add: is_done_def)
  define u where "u = while_true (polled t)"
  have p: "cls (polled t) = cls t" "alive_polls (polled t) = n"
    using Suc.prems by (cases "cls t"; simp add: polled_def)+
  have "cls u \<noteq> StreamLogger" "alive_polls u = n"
    using p Suc.prems(1) by (simp_all add: u_def while_true_cls)
  from Suc.IH [OF this] obtain v where "run u = Some v" "alive_polls v = 0" by blast
  moreover have "run t = run u" using nd by (subst run.simps) (simp add: u_def)
  ultimately show ?case by simp
qed

text \<open>
  Claim C7, as amended. Let pass \<open>n\<close> be the first in which an exception is raised (a
  failing read, a closed stream, a codec error). The exception does not leave the pass:
  the pass ends with \<^verbatim>\<open>_done\<close> set and the tailer otherwise as it was when the
  exception was raised. A \<^verbatim>\<open>StreamLogger\<close> then returns from \<^verbatim>\<open>run\<close> in exactly
  that state: nothing more is read or dispatched, and the bytes buffered without a
  delimiter stay in the buffer, undispatched. A \<^verbatim>\<open>ProcessLogger\<close> or
  \<^verbatim>\<open>PtyLogger\<close>, whose \<^verbatim>\<open>is_done\<close> does not read \<^verbatim>\<open>_done\<close>, returns from
  \<^verbatim>\<open>run\<close> too, but only once the owning process is reported dead.
\<close>

theorem exception_ends_run:
  assumes "\<forall>k\<le>n. \<not> done_flag (passes k t)"
    and "for_streams [0..<length (streams (passes n t))] False (passes n t) = (Some e, got, t')"
  shows "try_pass (passes n t) = (got, t'\<lparr>done_flag := True\<rparr>)
         \<and> (cls t = StreamLogger \<longrightarrow> run t = Some (t'\<lparr>done_flag := True\<rparr>))
         \<and> (cls t \<noteq> StreamLogger \<longrightarrow> (\<exists>u. run t = Some u \<and> alive_polls u = 0))"
proof (intro conjI impI)
  show "try_pass (passes n t) = (got, t'\<lparr>done_flag := True\<rparr>)"
    using assms(2) by (rule try_pass_raised)
  show "run t = Some (t'\<lparr>done_flag := True\<rparr>)" if "cls t = StreamLogger"
    using run_StreamLogger_stops [OF that first_exception_pass(2,3) [OF assms]]
      first_exception_pass(1) [OF assms] by simp
  show "\<exists>u. run t = Some u \<and> alive_polls u = 0" if "cls t \<noteq> StreamLogger"
    using run_process_returns [OF that refl] .
qed

text \<open>
  Claim C3, as amended. When the bytes buffered for a line do not decode (pass \<open>n\<close>
  is the first with an exception, and it is a \<^verbatim>\<open>UnicodeDecodeError\<close>), a
  \<^verbatim>\<open>StreamLogger\<close> does not raise: \<^verbatim>\<open>run\<close> returns, in the state of the failed
  pass with \<^verbatim>\<open>_done\<close> set. The undecodable bytes are still in their buffer (nothing is
  dropped but the delimiter), and the failure is not reported to the sink: every record
  the tailer has dispatched is an INFO record of a decoded line.
\<close>

theorem decode_failure_ends_run:
  assumes "cls t = StreamLogger"
    and "\<forall>k\<le>n. \<not> done_flag (passes k t)"
    and "for_streams [0..<length (streams (passes n t))] False (passes n t)
           = (Some UnicodeDecodeError, got, t')"
  shows "run t = Some (t'\<lparr>done_flag := True\<rparr>)
         \<and> (\<exists>i<length (streams t). utf8_decode (buffers t' ! i) = None)
         \<and> (\<forall>r \<in> set (sink t'). r \<in> set (sink t) \<or> fst r = INFO)"
proof (intro conjI)
  show "run t = Some (t'\<lparr>done_flag := True\<rparr>)"
    using run_StreamLogger_stops [OF assms(1) first_exception_pass(2,3) [OF assms(2,3)]]
      first_exception_pass(1) [OF assms(2,3)] by simp
  show "\<exists>i<length (streams t). utf8_decode (buffers t' ! i) = None"
    using for_streams_decode_error [OF assms(3)] by (auto simp: passes_length)
  have "set (sink t') \<subseteq> set (sink (passes n t)) \<union> {r. fst r = INFO}"
    using assms(3) by (rule for_streams_sink)
  with passes_sink [of n t] show "\<forall>r \<in> set (sink t'). r \<in> set (sink t) \<or> fst r = INFO"
    by auto
qed


theorem exception_ends_run_witness:
  "try_pass (new_tailer StreamLogger [[RBytes [0x61], RRaise, RBytes [0x0A]]] [0x0A] 0)
     = (True,
        \<lparr>cls = StreamLogger, streams = [[RBytes [0x0A]]], newline_char = [0x0A],
         buffers = [[0x61]], done_flag = True, sink = [], alive_polls = 0\<rparr>)
   \<and> run (new_tailer StreamLogger [[RBytes [0x61], RRaise, RBytes [0x0A]]] [0x0A] 0)
     = Some \<lparr>cls = StreamLogger, streams = [[RBytes [0x0A]]], newline_char = [0x0A],
         buffers = [[0x61]], done_flag = True, sink = [], alive_polls = 0\<rparr>"
  using exception_ends_run [of 0
      "new_tailer StreamLogger [[RBytes [0x61], RRaise, RBytes [0x0A]]] [0x0A] 0"
      StreamError True
      "\<lparr>cls = StreamLogger, streams = [[RBytes [0x0A]]], newline_char = [0x0A],
        buffers = [[0x61]], done_flag = False, sink = [], alive_polls = 0\<rparr>"]
  by (simp add: new_tailer_def feed_def)

text \<open>
  The claim as stated, for every tailer, fails for a \<^verbatim>\<open>ProcessLogger\<close>: the pass
  that raises (after the character a was buffered) sets \<^verbatim>\<open>_done\<close>, but the process
  is still alive, \<^verbatim>\<open>run\<close> goes on, and the next pass dispatches the buffered a
  together with the b that follows it.
\<close>

theorem exception_ends_run_counterexample:
  "try_pass (new_tailer ProcessLogger [[RStr [97], RRaise, RStr [98], RStr [10]], []] [0x0A] 2)
     = (True,
        \<lparr>cls = ProcessLogger, streams = [[RStr [98], RStr [10]], []], newline_char = [0x0A],
         buffers = [[0x61], []], done_flag = True, sink = [], alive_polls = 2\<rparr>)
   \<and> run (new_tailer ProcessLogger [[RStr [97], RRaise, RStr [98], RStr [10]], []] [0x0A] 2)
     = Some \<lparr>cls = ProcessLogger, streams = [[], []], newline_char = [0x0A],
         buffers = [[], []], done_flag = True, sink = [(INFO, [97, 98])], alive_polls = 0\<rparr>"
  by (simp add: new_tailer_def feed_def try_pass_def run.simps while_true.simps is_done_def
      polled_def utf8_encode_char_def)

theorem decode_failure_ends_run_witness:
  "run (new_tailer StreamLogger [[RBytes [0xFF], RBytes [0x0A], RBytes [0x61], RBytes [0x0A]]]
         [0x0A] 0)
     = Some \<lparr>cls = StreamLogger, streams = [[RBytes [0x61], RBytes [0x0A]]],
         newline_char = [0x0A], buffers = [[0xFF]], done_flag = True, sink = [],
         alive_polls = 0\<rparr>"
  using decode_failure_ends_run [of
      "new_tailer StreamLogger [[RBytes [0xFF], RBytes [0x0A], RBytes [0x61], RBytes [0x0A]]]
         [0x0A] 0"
      0 True
      "\<lparr>cls = StreamLogger, streams = [[RBytes [0x61], RBytes [0x0A]]],
        newline_char = [0x0A], buffers = [[0xFF]], done_flag = False, sink = [],
        alive_polls = 0\<rparr>"]
  by (simp add: new_tailer_def feed_def in_range_def)

text \<open>
  The claim as stated fails: after the line hi, the byte C3 followed by a delimiter
  does not decode. \<^verbatim>\<open>run\<close> returns (the tailer has terminated), the sink holds the
  record of hi and no warning, and the line x that follows is never read.
\<close>

theorem decode_failure_counterexample:
  "run (new_tailer StreamLogger
         [[RBytes [0x68], RBytes [0x69], RBytes [0x0A], RBytes [0xC3], RBytes [0x0A],
           RBytes [0x78], RBytes [0x0A]]] [0x0A] 0)
     = Some \<lparr>cls = StreamLogger, streams = [[RBytes [0x78], RBytes [0x0A]]],
         newline_char = [0x0A], buffers = [[0xC3]], done_flag = True,
         sink = [(INFO, [104, 105])], alive_polls = 0\<rparr>"
  by (simp add: new_tailer_def feed_def try_pass_def run.simps while_true.simps is_done_def
      polled_def in_range_def)

end
